theory Spec2Isabelle
  imports Complex_Main
begin

section \<open>The usage ledger of \<^verbatim>\<open>src/core/credit_manager.py\<close>\<close>

text \<open>
  The class \<^verbatim>\<open>CreditManager\<close> keeps running totals, two rolling windows of
  timestamped events, and a per-component table. Its methods read the wall clock
  (\<^verbatim>\<open>time.time()\<close>), block (\<^verbatim>\<open>time.sleep\<close>), and write a snapshot file.
  The embedding passes two pieces of state explicitly: the \<open>ledger\<close> (the attributes of
  the object) and the \<open>world\<close> (the object store, the clock, the file).

  Python's \<^verbatim>\<open>int\<close> is \<open>int\<close>. The cost estimate of \<^verbatim>\<open>get_usage_stats\<close> is computed
  in IEEE 754 double precision, as Python's \<^verbatim>\<open>float\<close> does: every operation is rounded
  to the nearest double, ties to even, and the conversion of an \<^verbatim>\<open>int\<close> beyond the
  double range raises \<^verbatim>\<open>OverflowError\<close>. Timestamps, waits and the token threshold are
  idealised as \<open>real\<close>: the clock values come from the environment, and arithmetic on
  them is exact here.
  The lock (\<^verbatim>\<open>threading.RLock\<close>) serialises the methods; the model is the sequential
  behaviour of one method call after another. The singleton machinery (\<^verbatim>\<open>__new__\<close>,
  \<^verbatim>\<open>get_credit_manager\<close>) gives every caller the same object; the model has one
  ledger. Log messages and the creation of the directory \<^verbatim>\<open>data/logs\<close> are not
  modelled.
\<close>

subsection \<open>Data\<close>

datatype error = IndexError | ValueError | OverflowError

text \<open>
  A Python \<^verbatim>\<open>float\<close>: a finite double (its value as a real number), an infinity, or
  not-a-number. The sign of zero is not represented.
\<close>

datatype pyfloat = Finite real | PosInf | NegInf | NaN

text \<open>One inner dictionary \<^verbatim>\<open>{'calls': 0, 'tokens': 0, 'errors': 0}\<close>.\<close>

record comp_stats =
  calls :: int
  tokens :: int
  errors :: int

text \<open>
  \<^verbatim>\<open>self.component_usage\<close> is a dictionary object. The ledger holds a reference to
  it, and so does every value returned by \<^verbatim>\<open>get_usage_stats\<close>; the object itself
  lives in the store \<open>heap\<close> of the world.
\<close>

type_synonym table = "string \<rightharpoonup> comp_stats"

type_synonym ref = nat

record ledger =
  total_requests :: int
  total_tokens :: int
  total_input_tokens :: int
  total_output_tokens :: int
  rpm_limit :: int
  tpm_limit :: int
  call_times :: "real list"
  token_times :: "(real \<times> int) list"
  component_usage :: ref
  cost_per_million_input :: pyfloat
  cost_per_million_output :: pyfloat

text \<open>The dictionary returned by \<^verbatim>\<open>get_usage_stats\<close>.\<close>

record usage_stats =
  stats_total_requests :: int
  stats_total_tokens :: int
  estimated_cost :: pyfloat
  component_breakdown :: ref
  current_rpm :: nat

text \<open>
  What \<^verbatim>\<open>json.dump\<close> writes: the timestamp, the statistics, and the contents of the
  table that \<^verbatim>\<open>component_breakdown\<close> refers to at the moment of the write.
\<close>

record snapshot =
  timestamp :: real
  stats :: usage_stats
  breakdown :: table

text \<open>
  The world: the object store; the wall clock, with the time that elapses before each of
  the coming clock reads (\<open>drift\<close>; no further time elapses once the list is used up);
  the durations handed to \<^verbatim>\<open>time.sleep\<close> so far (\<open>slept\<close>); whether writing the file
  succeeds (\<open>disk_ok\<close>); the contents of \<^verbatim>\<open>data/logs/api_usage.json\<close>; and the number of
  times \<^verbatim>\<open>_save_usage\<close> has run (\<open>save_calls\<close>).
\<close>

record world =
  heap :: "ref \<Rightarrow> table"
  next_ref :: ref
  clock :: real
  drift :: "real list"
  slept :: "real list"
  disk_ok :: bool
  persistence_file :: "snapshot option"
  save_calls :: nat

subsection \<open>Double-precision arithmetic\<close>

definition pow2 :: "int \<Rightarrow> real" where
  "pow2 k = (if 0 \<le> k then 2 ^ nat k else 1 / 2 ^ nat (- k))"

text \<open>Rounding to the nearest integer, a tie going to the even one.\<close>

definition round_half_even :: "real \<Rightarrow> int" where
  "round_half_even m =
     (let f = \<lfloor>m\<rfloor>; r = m - of_int f
      in if r < 1 / 2 then f else if 1 / 2 < r then f + 1 else if even f then f else f + 1)"

text \<open>
  The binary exponent of a positive \<open>x\<close> below \<open>2 ^ 1024\<close>: the \<open>e\<close> with
  \<open>2 ^ e \<le> x < 2 ^ (e + 1)\<close>, but not below \<open>- 1022\<close>, the exponent of the subnormal
  doubles. The search starts at exponent 0 with a bound on its steps that the range of
  exponents never reaches.
\<close>

fun binade :: "nat \<Rightarrow> real \<Rightarrow> int \<Rightarrow> int" where
  "binade 0 x e = e"
| "binade (Suc n) x e =
     (if 2 \<le> x then binade n (x / 2) (e + 1)
      else if x < 1 \<and> - 1022 < e then binade n (2 * x) (e - 1)
      else e)"

text \<open>
  The double nearest to a real number: 53 significant bits, the spacing of the doubles
  around \<open>x\<close> being \<open>2 ^ (e - 52)\<close>; a result of magnitude \<open>2 ^ 1024\<close> or more is an
  infinity.
\<close>

definition round_double :: "real \<Rightarrow> pyfloat" where
  "round_double x =
     (if x = 0 then Finite 0
      else if 2 ^ 1024 \<le> \<bar>x\<bar> then (if 0 < x then PosInf else NegInf)
      else
        (let e = binade 1100 \<bar>x\<bar> 0;
             q = pow2 (e - 52);
             r = of_int (round_half_even (\<bar>x\<bar> / q)) * q
         in if 2 ^ 1024 \<le> r then (if 0 < x then PosInf else NegInf)
            else Finite (if 0 \<le> x then r else - r)))"

text \<open>
  \<^verbatim>\<open>float(n)\<close> for an \<^verbatim>\<open>int\<close>, as in \<^verbatim>\<open>n * 0.075\<close>: the nearest double, or
  \<^verbatim>\<open>OverflowError\<close> (int too large to convert to float).
\<close>

definition float_of_int :: "int \<Rightarrow> error + pyfloat" where
  "float_of_int n =
     (case round_double (of_int n) of
        Finite r \<Rightarrow> Inr (Finite r)
      | _ \<Rightarrow> Inl OverflowError)"

fun float_mul :: "pyfloat \<Rightarrow> pyfloat \<Rightarrow> pyfloat" where
  "float_mul (Finite a) (Finite b) = round_double (a * b)"
| "float_mul NaN _ = NaN"
| "float_mul _ NaN = NaN"
| "float_mul PosInf (Finite b) = (if b = 0 then NaN else if 0 < b then PosInf else NegInf)"
| "float_mul NegInf (Finite b) = (if b = 0 then NaN else if 0 < b then NegInf else PosInf)"
| "float_mul (Finite a) PosInf = (if a = 0 then NaN else if 0 < a then PosInf else NegInf)"
| "float_mul (Finite a) NegInf = (if a = 0 then NaN else if 0 < a then NegInf else PosInf)"
| "float_mul PosInf PosInf = PosInf"
| "float_mul PosInf NegInf = NegInf"
| "float_mul NegInf PosInf = NegInf"
| "float_mul NegInf NegInf = PosInf"

fun float_add :: "pyfloat \<Rightarrow> pyfloat \<Rightarrow> pyfloat" where
  "float_add (Finite a) (Finite b) = round_double (a + b)"
| "float_add NaN _ = NaN"
| "float_add _ NaN = NaN"
| "float_add PosInf NegInf = NaN"
| "float_add NegInf PosInf = NaN"
| "float_add PosInf _ = PosInf"
| "float_add NegInf _ = NegInf"
| "float_add _ PosInf = PosInf"
| "float_add _ NegInf = NegInf"

text \<open>
  Division of a float by a positive \<^verbatim>\<open>int\<close> literal that is itself a double (here
  \<^verbatim>\<open>1_000_000\<close>, converted to \<^verbatim>\<open>1000000.0\<close> without rounding).
\<close>

fun float_div :: "pyfloat \<Rightarrow> real \<Rightarrow> pyfloat" where
  "float_div (Finite a) d = round_double (a / d)"
| "float_div x d = x"

subsection \<open>The clock\<close>

definition time_time :: "world \<Rightarrow> real \<times> world" where
  "time_time w =
     (case drift w of
        [] \<Rightarrow> (clock w, w)
      | d # ds \<Rightarrow> (clock w + d, w\<lparr>clock := clock w + d, drift := ds\<rparr>))"

text \<open>\<^verbatim>\<open>time.sleep\<close> raises \<^verbatim>\<open>ValueError\<close> on a negative duration.\<close>

definition time_sleep :: "real \<Rightarrow> world \<Rightarrow> error + world" where
  "time_sleep secs w =
     (if secs < 0 then Inl ValueError
      else Inr (w\<lparr>clock := clock w + secs, slept := slept w @ [secs]\<rparr>))"

subsection \<open>\<^verbatim>\<open>__init__\<close>\<close>

definition registry :: table where
  "registry =
     [''collector'' \<mapsto> \<lparr>calls = 0, tokens = 0, errors = 0\<rparr>,
      ''insight_agent'' \<mapsto> \<lparr>calls = 0, tokens = 0, errors = 0\<rparr>,
      ''optimizer'' \<mapsto> \<lparr>calls = 0, tokens = 0, errors = 0\<rparr>,
      ''analyzer'' \<mapsto> \<lparr>calls = 0, tokens = 0, errors = 0\<rparr>,
      ''dspy'' \<mapsto> \<lparr>calls = 0, tokens = 0, errors = 0\<rparr>]"

definition CreditManager_init :: "world \<Rightarrow> ledger \<times> world" where
  "CreditManager_init w =
     (\<lparr>total_requests = 0, total_tokens = 0,
       total_input_tokens = 0, total_output_tokens = 0,
       rpm_limit = 15, tpm_limit = 1000000,
       call_times = [], token_times = [],
       component_usage = next_ref w,
       cost_per_million_input = round_double 0.075,
       cost_per_million_output = round_double 0.30\<rparr>,
      w\<lparr>heap := (heap w)(next_ref w := registry), next_ref := Suc (next_ref w)\<rparr>)"

subsection \<open>\<^verbatim>\<open>check_rate_limit\<close> and \<^verbatim>\<open>track_request_start\<close>\<close>

text \<open>
  The second half of \<^verbatim>\<open>check_rate_limit\<close> (from \<^verbatim>\<open># Check TPM\<close> on), with the value
  that the variable \<^verbatim>\<open>now\<close> has there.
\<close>

definition check_tpm :: "real \<Rightarrow> ledger \<Rightarrow> world \<Rightarrow> error + (bool \<times> ledger \<times> world)" where
  "check_tpm now l w =
     (let l1 = l\<lparr>token_times := filter (\<lambda>(t, k). now - t < 60) (token_times l)\<rparr>;
          recent_tokens = sum_list (map snd (token_times l1))
      in if real_of_int (tpm_limit l1) * 0.9 \<le> real_of_int recent_tokens then
           (let oldest_time =
                  (if token_times l1 \<noteq> [] then min_list (map fst (token_times l1)) else now);
                wait_time = 60 - (now - oldest_time) + 1
            in case time_sleep wait_time w of
                 Inl e \<Rightarrow> Inl e
               | Inr w1 \<Rightarrow> Inr (True, l1, w1))
         else Inr (True, l1, w))"

definition check_rate_limit :: "ledger \<Rightarrow> world \<Rightarrow> error + (bool \<times> ledger \<times> world)" where
  "check_rate_limit l w =
     (let (now, w1) = time_time w;
          l1 = l\<lparr>call_times := filter (\<lambda>t. now - t < 60) (call_times l)\<rparr>
      in if rpm_limit l1 \<le> int (length (call_times l1)) then
           (case call_times l1 of
              [] \<Rightarrow> Inl IndexError
            | t0 # _ \<Rightarrow>
                (let wait_time = 60 - (now - t0) + 1
                 in if 0 < wait_time then
                      (case time_sleep wait_time w1 of
                         Inl e \<Rightarrow> Inl e
                       | Inr w2 \<Rightarrow>
                           (let (now2, w3) = time_time w2;
                                l2 = l1\<lparr>call_times :=
                                        filter (\<lambda>t. now2 - t < 60) (call_times l1)\<rparr>
                            in check_tpm now2 l2 w3))
                    else check_tpm now l1 w1))
         else check_tpm now l1 w1)"

definition track_request_start :: "ledger \<Rightarrow> world \<Rightarrow> error + (ledger \<times> world)" where
  "track_request_start l w =
     (case check_rate_limit l w of
        Inl e \<Rightarrow> Inl e
      | Inr (_, l1, w1) \<Rightarrow>
          (let (t, w2) = time_time w1
           in Inr (l1\<lparr>call_times := call_times l1 @ [t]\<rparr>, w2)))"

subsection \<open>\<^verbatim>\<open>get_usage_stats\<close> and \<^verbatim>\<open>_save_usage\<close>\<close>

text \<open>
  \<^verbatim>\<open>[t for t in self.call_times if time.time() - t < 60]\<close>: the clock is read once for
  each element.
\<close>

fun recent_calls :: "real list \<Rightarrow> world \<Rightarrow> real list \<times> world" where
  "recent_calls [] w = ([], w)"
| "recent_calls (t # ts) w =
     (let (now, w1) = time_time w;
          (rs, w2) = recent_calls ts w1
      in (if now - t < 60 then t # rs else rs, w2))"

text \<open>
  The two costs are computed first, the input cost before the output cost; each
  \<^verbatim>\<open>int * float\<close> converts the \<^verbatim>\<open>int\<close> and can raise \<^verbatim>\<open>OverflowError\<close>. The
  clock is read only while the returned dictionary is built.
\<close>

definition get_usage_stats :: "ledger \<Rightarrow> world \<Rightarrow> error + (usage_stats \<times> world)" where
  "get_usage_stats l w =
     (case float_of_int (total_input_tokens l) of
        Inl e \<Rightarrow> Inl e
      | Inr fi \<Rightarrow>
          (let input_cost = float_div (float_mul fi (cost_per_million_input l)) 1000000
           in case float_of_int (total_output_tokens l) of
                Inl e \<Rightarrow> Inl e
              | Inr fo \<Rightarrow>
                  (let output_cost = float_div (float_mul fo (cost_per_million_output l)) 1000000;
                       (rs, w1) = recent_calls (call_times l) w
                   in Inr (\<lparr>stats_total_requests = total_requests l,
                            stats_total_tokens = total_tokens l,
                            estimated_cost = float_add input_cost output_cost,
                            component_breakdown = component_usage l,
                            current_rpm = length rs\<rparr>, w1))))"

text \<open>
  \<^verbatim>\<open>_save_usage\<close>: \<^verbatim>\<open>datetime.now()\<close> reads the clock, then the statistics are taken,
  then the file is overwritten. Any exception, from \<^verbatim>\<open>get_usage_stats\<close> or from
  writing, is caught and logged, and the file keeps its contents.
\<close>

definition save_usage :: "ledger \<Rightarrow> world \<Rightarrow> world" where
  "save_usage l w =
     (let (ts, w1) = time_time w
      in case get_usage_stats l w1 of
           Inl e \<Rightarrow> w1\<lparr>save_calls := Suc (save_calls w1)\<rparr>
         | Inr (st, w2) \<Rightarrow>
             (let data = \<lparr>timestamp = ts, stats = st,
                          breakdown = heap w2 (component_breakdown st)\<rparr>
              in w2\<lparr>persistence_file := (if disk_ok w2 then Some data else persistence_file w2),
                    save_calls := Suc (save_calls w2)\<rparr>))"

subsection \<open>\<^verbatim>\<open>track_usage\<close>\<close>

text \<open>
  The updates of one inner dictionary, in place: the object that \<open>r\<close> refers to changes,
  the reference does not. A key that is not in the table leaves the store as it is
  (\<^verbatim>\<open>if component in self.component_usage\<close>).
\<close>

definition bump_success :: "ref \<Rightarrow> string \<Rightarrow> int \<Rightarrow> world \<Rightarrow> world" where
  "bump_success r component n w =
     (case heap w r component of
        None \<Rightarrow> w
      | Some cs \<Rightarrow>
          w\<lparr>heap := (heap w)(r := (heap w r)(component \<mapsto>
               cs\<lparr>calls := calls cs + 1, tokens := tokens cs + n\<rparr>))\<rparr>)"

definition bump_errors :: "ref \<Rightarrow> string \<Rightarrow> world \<Rightarrow> world" where
  "bump_errors r component w =
     (case heap w r component of
        None \<Rightarrow> w
      | Some cs \<Rightarrow>
          w\<lparr>heap := (heap w)(r := (heap w r)(component \<mapsto> cs\<lparr>errors := errors cs + 1\<rparr>))\<rparr>)"

text \<open>The last statement of \<^verbatim>\<open>track_usage\<close>, under \<^verbatim>\<open># Periodic save\<close>.\<close>

definition periodic_save :: "ledger \<Rightarrow> world \<Rightarrow> world" where
  "periodic_save l w = (if total_requests l mod 10 = 0 then save_usage l w else w)"

definition track_usage ::
  "int \<Rightarrow> int \<Rightarrow> string \<Rightarrow> bool \<Rightarrow> ledger \<Rightarrow> world \<Rightarrow> ledger \<times> world" where
  "track_usage input_tokens output_tokens component success l w =
     (if success then
        (let l1 = l\<lparr>total_requests := total_requests l + 1,
                    total_tokens := total_tokens l + (input_tokens + output_tokens),
                    total_input_tokens := total_input_tokens l + input_tokens,
                    total_output_tokens := total_output_tokens l + output_tokens\<rparr>;
             (t, w1) = time_time w;
             l2 = l1\<lparr>token_times := token_times l1 @ [(t, input_tokens + output_tokens)]\<rparr>;
             w2 = bump_success (component_usage l2) component (input_tokens + output_tokens) w1
         in (l2, periodic_save l2 w2))
      else
        (let w1 = bump_errors (component_usage l) component w
         in (l, periodic_save l w1)))"

subsection \<open>Sequences of calls and reachable states\<close>

text \<open>A run of successful \<^verbatim>\<open>track_usage\<close> calls, one for each triple
  (input tokens, output tokens, component).\<close>

fun track_all :: "(int \<times> int \<times> string) list \<Rightarrow> ledger \<Rightarrow> world \<Rightarrow> ledger \<times> world" where
  "track_all [] l w = (l, w)"
| "track_all ((inp, out, c) # xs) l w =
     (case track_usage inp out c True l w of (l', w') \<Rightarrow> track_all xs l' w')"

text \<open>
  The clock is monotonic when no negative time elapses between two reads.
\<close>

definition mono_clock :: "world \<Rightarrow> bool" where
  "mono_clock w = list_all (\<lambda>d. 0 \<le> d) (drift w)"

text \<open>
  The states a ledger can be in under a monotonic clock: built by \<^verbatim>\<open>__init__\<close> in a
  world with a monotonic clock, then any sequence of calls of the three public methods
  that return. (A call of \<^verbatim>\<open>get_usage_stats\<close> that raises has changed nothing.)
\<close>

inductive reachable :: "ledger \<Rightarrow> world \<Rightarrow> bool" where
  r_init: "mono_clock w0 \<Longrightarrow> CreditManager_init w0 = (l, w) \<Longrightarrow> reachable l w"
| r_admit: "reachable l w \<Longrightarrow> track_request_start l w = Inr (l', w') \<Longrightarrow> reachable l' w'"
| r_record: "reachable l w \<Longrightarrow> track_usage inp out c b l w = (l', w') \<Longrightarrow> reachable l' w'"
| r_stats: "reachable l w \<Longrightarrow> get_usage_stats l w = Inr (st, w') \<Longrightarrow> reachable l w'"

text \<open>What holds in every reachable state (shown below).\<close>

definition ledger_inv :: "ledger \<Rightarrow> world \<Rightarrow> bool" where
  "ledger_inv l w \<longleftrightarrow>
     rpm_limit l = 15 \<and> tpm_limit l = 1000000 \<and>
     cost_per_million_input l = round_double 0.075 \<and>
     cost_per_million_output l = round_double 0.30 \<and>
     int (length (call_times l)) \<le> rpm_limit l \<and>
     dom (heap w (component_usage l)) = dom registry \<and>
     total_tokens l = total_input_tokens l + total_output_tokens l \<and>
     mono_clock w"

text \<open>The token totals agree: \<^verbatim>\<open>total_tokens == total_input_tokens + total_output_tokens\<close>.\<close>

definition tokens_consistent :: "ledger \<Rightarrow> bool" where
  "tokens_consistent l \<longleftrightarrow> total_tokens l = total_input_tokens l + total_output_tokens l"



text \<open>A world used to evaluate the model on concrete inputs.\<close>

definition world0 :: world where
  "world0 = \<lparr>heap = (\<lambda>_. Map.empty), next_ref = 0, clock = 1000, drift = [1, 2, 3],
             slept = [], disk_ok = True, persistence_file = None, save_calls = 0\<rparr>"

text \<open>The fresh ledger in that world.\<close>

definition ledger0 :: ledger where
  "ledger0 = fst (CreditManager_init world0)"

definition world1 :: world where
  "world1 = snd (CreditManager_init world0)"

text \<open>
  A ledger whose request window is full (15 events in the last 15 seconds) and whose
  token window is above 90 percent of the limit.
\<close>

definition busy_ledger :: ledger where
  "busy_ledger = ledger0\<lparr>call_times := [986, 987, 988, 989, 990, 991, 992, 993, 994, 995,
                                          996, 997, 998, 999, 1000],
                            token_times := [(995, 950000)]\<rparr>"











text \<open>The value that \<^verbatim>\<open>get_usage_stats\<close> returns on the fresh ledger.\<close>

definition stats0 :: usage_stats where
  "stats0 = \<lparr>stats_total_requests = 0, stats_total_tokens = 0, estimated_cost = Finite 0,
             component_breakdown = 0, current_rpm = 0\<rparr>"















section \<open>Properties\<close>

subsection \<open>What \<^verbatim>\<open>track_usage\<close> does to the ledger\<close>

lemma track_usage_success_ledger:
  "fst (track_usage inp out c True l w) =
     l\<lparr>total_requests := total_requests l + 1,
       total_tokens := total_tokens l + (inp + out),
       total_input_tokens := total_input_tokens l + inp,
       total_output_tokens := total_output_tokens l + out,
       token_times := token_times l @ [(fst (time_time w), inp + out)]\<rparr>"
  by (simp add: track_usage_def Let_def split: prod.splits)

lemma track_usage_failure_ledger: "fst (track_usage inp out c False l w) = l"
  by (simp add: track_usage_def Let_def)

lemma track_all_totals:
  "total_requests (fst (track_all xs l w)) = total_requests l + int (length xs) \<and>
   total_input_tokens (fst (track_all xs l w)) =
     total_input_tokens l + (\<Sum>(inp, out, c) \<leftarrow> xs. inp) \<and>
   total_output_tokens (fst (track_all xs l w)) =
     total_output_tokens l + (\<Sum>(inp, out, c) \<leftarrow> xs. out) \<and>
   total_tokens (fst (track_all xs l w)) =
     total_tokens l + (\<Sum>(inp, out, c) \<leftarrow> xs. inp + out)"
proof (induction xs arbitrary: l w)
  case Nil
  show ?case by simp
next
  case (Cons x xs)
  obtain inp out c where x: "x = (inp, out, c)" by (cases x)
  obtain l' w' where step: "track_usage inp out c True l w = (l', w')" by fastforce
  have l': "l' = fst (track_usage inp out c True l w)" using step by simp
  show ?case
    using Cons.IH [of l' w'] by (simp add: x step) (simp add: l' track_usage_success_ledger)
qed

subsection \<open>Frame lemmas: what each step leaves alone\<close>

lemma time_time_frame:
  "heap (snd (time_time w)) = heap w" "next_ref (snd (time_time w)) = next_ref w"
  "slept (snd (time_time w)) = slept w" "disk_ok (snd (time_time w)) = disk_ok w"
  "persistence_file (snd (time_time w)) = persistence_file w"
  "save_calls (snd (time_time w)) = save_calls w"
  by (simp_all add: time_time_def split: list.splits)

lemma time_time_clock: "clock (snd (time_time w)) = fst (time_time w)"
  by (simp add: time_time_def split: list.splits)

lemma time_time_mono:
  "mono_clock w \<Longrightarrow> mono_clock (snd (time_time w))" "mono_clock w \<Longrightarrow> clock w \<le> fst (time_time w)"
  by (cases "drift w"; simp add: time_time_def mono_clock_def)+

lemma recent_calls_frame:
  "heap (snd (recent_calls ts w)) = heap w \<and> next_ref (snd (recent_calls ts w)) = next_ref w \<and>
   slept (snd (recent_calls ts w)) = slept w \<and> disk_ok (snd (recent_calls ts w)) = disk_ok w \<and>
   persistence_file (snd (recent_calls ts w)) = persistence_file w \<and>
   save_calls (snd (recent_calls ts w)) = save_calls w"
proof (induction ts arbitrary: w)
  case Nil
  show ?case by simp
next
  case (Cons t ts)
  show ?case
    using Cons.IH [of "snd (time_time w)"]
    by (simp add: time_time_frame split_beta)
qed

lemma recent_calls_mono:
  "mono_clock w \<Longrightarrow> mono_clock (snd (recent_calls ts w)) \<and> clock w \<le> clock (snd (recent_calls ts w))"
proof (induction ts arbitrary: w)
  case Nil
  then show ?case by simp
next
  case (Cons t ts)
  have m: "mono_clock (snd (time_time w))" using Cons.prems by (rule time_time_mono)
  have "clock w \<le> clock (snd (time_time w))"
    using time_time_mono(2) [OF Cons.prems] by (simp add: time_time_clock)
  then show ?case
    using Cons.IH [OF m] by (simp add: split_beta)
qed

lemma float_of_int_cases:
  obtains (finite) r where "float_of_int n = Inr (Finite r)"
  | (overflow) "float_of_int n = Inl OverflowError"
  by (cases "round_double (of_int n)") (auto simp: float_of_int_def)

lemma get_usage_stats_Inr:
  assumes "float_of_int (total_input_tokens l) = Inr fi"
    and "float_of_int (total_output_tokens l) = Inr fo"
  shows "get_usage_stats l w =
     Inr (\<lparr>stats_total_requests = total_requests l,
           stats_total_tokens = total_tokens l,
           estimated_cost =
             float_add (float_div (float_mul fi (cost_per_million_input l)) 1000000)
                       (float_div (float_mul fo (cost_per_million_output l)) 1000000),
           component_breakdown = component_usage l,
           current_rpm = length (fst (recent_calls (call_times l) w))\<rparr>,
          snd (recent_calls (call_times l) w))"
  using assms by (simp add: get_usage_stats_def Let_def split_beta)


lemma get_usage_stats_returned:
  assumes "get_usage_stats l w = Inr (st, w1)"
  obtains fi fo where
    "float_of_int (total_input_tokens l) = Inr fi"
    "float_of_int (total_output_tokens l) = Inr fo"
    "st = \<lparr>stats_total_requests = total_requests l,
           stats_total_tokens = total_tokens l,
           estimated_cost =
             float_add (float_div (float_mul fi (cost_per_million_input l)) 1000000)
                       (float_div (float_mul fo (cost_per_million_output l)) 1000000),
           component_breakdown = component_usage l,
           current_rpm = length (fst (recent_calls (call_times l) w))\<rparr>"
    "w1 = snd (recent_calls (call_times l) w)"
proof (cases rule: float_of_int_cases [of "total_input_tokens l"])
  case overflow
  then show ?thesis using assms by (simp add: get_usage_stats_def)
next
  case fin: (finite r)
  show ?thesis
  proof (cases rule: float_of_int_cases [of "total_output_tokens l"])
    case overflow
    then show ?thesis using assms fin by (simp add: get_usage_stats_def)
  next
    case (finite r')
    show ?thesis
      using assms get_usage_stats_Inr [OF fin finite, of w]
      by (intro that [OF fin finite]) simp_all
  qed
qed

lemma get_usage_stats_world:
  "get_usage_stats l w = Inr (st, w1) \<Longrightarrow> w1 = snd (recent_calls (call_times l) w)"
  by (erule get_usage_stats_returned)

lemma save_usage_frame:
  "heap (save_usage l w) = heap w" "next_ref (save_usage l w) = next_ref w"
  "slept (save_usage l w) = slept w" "disk_ok (save_usage l w) = disk_ok w"
  "save_calls (save_usage l w) = Suc (save_calls w)"
proof -
  have "heap (save_usage l w) = heap w \<and> next_ref (save_usage l w) = next_ref w \<and>
    slept (save_usage l w) = slept w \<and> disk_ok (save_usage l w) = disk_ok w \<and>
    save_calls (save_usage l w) = Suc (save_calls w)"
  proof (cases "get_usage_stats l (snd (time_time w))")
    case (Inl e)
    then show ?thesis
      by (simp add: save_usage_def Let_def split_beta time_time_frame)
  next
    case (Inr p)
    obtain st w2 where p: "p = (st, w2)" by (cases p)
    have "w2 = snd (recent_calls (call_times l) (snd (time_time w)))"
      using Inr p by (auto dest: get_usage_stats_world)
    then show ?thesis
      using Inr p
      by (simp add: save_usage_def Let_def split_beta recent_calls_frame time_time_frame)
  qed
  then show "heap (save_usage l w) = heap w" "next_ref (save_usage l w) = next_ref w"
    "slept (save_usage l w) = slept w" "disk_ok (save_usage l w) = disk_ok w"
    "save_calls (save_usage l w) = Suc (save_calls w)"
    by blast+
qed


lemma save_usage_mono: "mono_clock w \<Longrightarrow> mono_clock (save_usage l w)"
proof -
  assume m: "mono_clock w"
  have m1: "mono_clock (snd (time_time w))" by (rule time_time_mono(1) [OF m])
  have m2: "mono_clock (snd (recent_calls (call_times l) (snd (time_time w))))"
    using recent_calls_mono [OF m1] by simp
  show ?thesis
  proof (cases "get_usage_stats l (snd (time_time w))")
    case (Inl e)
    then show ?thesis
      using m1 by (simp add: save_usage_def Let_def split_beta mono_clock_def)
  next
    case (Inr p)
    obtain st w2 where p: "p = (st, w2)" by (cases p)
    have "w2 = snd (recent_calls (call_times l) (snd (time_time w)))"
      using Inr p by (auto dest: get_usage_stats_world)
    then show ?thesis
      using Inr p m2 by (simp add: save_usage_def Let_def split_beta mono_clock_def)
  qed
qed

lemma bump_success_frame:
  "next_ref (bump_success r c n w) = next_ref w" "clock (bump_success r c n w) = clock w"
  "drift (bump_success r c n w) = drift w" "slept (bump_success r c n w) = slept w"
  "disk_ok (bump_success r c n w) = disk_ok w"
  "persistence_file (bump_success r c n w) = persistence_file w"
  "save_calls (bump_success r c n w) = save_calls w"
  by (simp_all add: bump_success_def split: option.splits)

lemma bump_errors_frame:
  "next_ref (bump_errors r c w) = next_ref w" "clock (bump_errors r c w) = clock w"
  "drift (bump_errors r c w) = drift w" "slept (bump_errors r c w) = slept w"
  "disk_ok (bump_errors r c w) = disk_ok w"
  "persistence_file (bump_errors r c w) = persistence_file w"
  "save_calls (bump_errors r c w) = save_calls w"
  by (simp_all add: bump_errors_def split: option.splits)

lemma bump_success_heap:
  "heap (bump_success r c n w) =
     (case heap w r c of
        None \<Rightarrow> heap w
      | Some cs \<Rightarrow> (heap w)(r := (heap w r)(c \<mapsto> cs\<lparr>calls := calls cs + 1, tokens := tokens cs + n\<rparr>)))"
  by (simp add: bump_success_def split: option.splits)

lemma bump_errors_heap:
  "heap (bump_errors r c w) =
     (case heap w r c of
        None \<Rightarrow> heap w
      | Some cs \<Rightarrow> (heap w)(r := (heap w r)(c \<mapsto> cs\<lparr>errors := errors cs + 1\<rparr>)))"
  by (simp add: bump_errors_def split: option.splits)

lemma bump_success_dom: "dom (heap (bump_success r c n w) r') = dom (heap w r')"
  by (auto simp: bump_success_heap split: option.splits if_splits)

lemma bump_errors_dom: "dom (heap (bump_errors r c w) r') = dom (heap w r')"
  by (auto simp: bump_errors_heap split: option.splits if_splits)

lemma periodic_save_frame:
  "heap (periodic_save l w) = heap w" "next_ref (periodic_save l w) = next_ref w"
  "slept (periodic_save l w) = slept w" "disk_ok (periodic_save l w) = disk_ok w"
  by (simp_all add: periodic_save_def save_usage_frame)

lemma periodic_save_calls:
  "save_calls (periodic_save l w) = (if total_requests l mod 10 = 0 then Suc (save_calls w) else save_calls w)"
  by (simp add: periodic_save_def save_usage_frame)

lemma periodic_save_mono: "mono_clock w \<Longrightarrow> mono_clock (periodic_save l w)"
  by (simp add: periodic_save_def save_usage_mono)

lemma track_usage_success_heap:
  "heap (snd (track_usage inp out c True l w)) =
     (case heap w (component_usage l) c of
        None \<Rightarrow> heap w
      | Some cs \<Rightarrow> (heap w)(component_usage l := (heap w (component_usage l))(c \<mapsto>
                     cs\<lparr>calls := calls cs + 1, tokens := tokens cs + (inp + out)\<rparr>)))"
  by (simp add: track_usage_def Let_def split_beta periodic_save_frame bump_success_heap
      time_time_frame split: option.splits)

lemma track_usage_failure_heap:
  "heap (snd (track_usage inp out c False l w)) =
     (case heap w (component_usage l) c of
        None \<Rightarrow> heap w
      | Some cs \<Rightarrow> (heap w)(component_usage l := (heap w (component_usage l))(c \<mapsto>
                     cs\<lparr>errors := errors cs + 1\<rparr>)))"
  by (simp add: track_usage_def Let_def periodic_save_frame bump_errors_heap)

lemma track_usage_dom:
  "dom (heap (snd (track_usage inp out c b l w)) r) = dom (heap w r)"
  by (cases b)
     (simp_all add: track_usage_def Let_def split_beta periodic_save_frame bump_success_dom
        bump_errors_dom time_time_frame)

lemma bump_mono:
  "mono_clock (bump_success r c n w) = mono_clock w" "mono_clock (bump_errors r c w) = mono_clock w"
  by (simp_all add: mono_clock_def bump_success_frame bump_errors_frame)

lemma track_usage_mono: "mono_clock w \<Longrightarrow> mono_clock (snd (track_usage inp out c b l w))"
  by (cases b)
     (simp_all add: track_usage_def Let_def split_beta periodic_save_mono time_time_mono
        bump_mono)

lemma track_usage_save_calls:
  "save_calls (snd (track_usage inp out c b l w)) =
     (if total_requests (fst (track_usage inp out c b l w)) mod 10 = 0
      then Suc (save_calls w) else save_calls w)"
  by (cases b)
     (simp_all add: track_usage_def Let_def split_beta periodic_save_calls bump_success_frame
        bump_errors_frame time_time_frame)


subsection \<open>The outcomes of \<^verbatim>\<open>check_rate_limit\<close>\<close>

lemma time_sleep_nonneg:
  "0 \<le> d \<Longrightarrow> time_sleep d w = Inr (w\<lparr>clock := clock w + d, slept := slept w @ [d]\<rparr>)"
  by (simp add: time_sleep_def)

lemma min_list_in_set: "xs \<noteq> [] \<Longrightarrow> min_list xs \<in> set (xs :: real list)"
  by (simp add: min_list_Min)

lemma tpm_wait_positive:
  fixes now :: real
  assumes "ts = filter (\<lambda>(t, k). now - t < 60) ts0"
  shows "1 < 60 - (now - (if ts \<noteq> [] then min_list (map fst ts) else now)) + 1"
proof (cases "ts = []")
  case True
  then show ?thesis by simp
next
  case False
  then have "min_list (map fst ts) \<in> fst ` set ts"
    using min_list_in_set [of "map fst ts"] by simp
  then obtain k where "(min_list (map fst ts), k) \<in> set ts" by auto
  then have "now - min_list (map fst ts) < 60" using assms by auto
  then show ?thesis using False by simp
qed

lemma check_tpm_cases:
  obtains
    (pass) "check_tpm now l w =
              Inr (True, l\<lparr>token_times := filter (\<lambda>(t, k). now - t < 60) (token_times l)\<rparr>, w)"
  | (wait) d where "1 < d"
      "check_tpm now l w =
         Inr (True, l\<lparr>token_times := filter (\<lambda>(t, k). now - t < 60) (token_times l)\<rparr>,
              w\<lparr>clock := clock w + d, slept := slept w @ [d]\<rparr>)"
proof -
  let ?ts = "filter (\<lambda>(t, k). now - t < 60) (token_times l)"
  let ?d = "60 - (now - (if ?ts \<noteq> [] then min_list (map fst ?ts) else now)) + 1"
  have d: "1 < ?d" by (rule tpm_wait_positive) simp
  show ?thesis
  proof (cases "real_of_int (tpm_limit l) * 0.9 \<le> real_of_int (sum_list (map snd ?ts))")
    case False
    then have "check_tpm now l w = Inr (True, l\<lparr>token_times := ?ts\<rparr>, w)"
      by (simp add: check_tpm_def Let_def)
    then show ?thesis by (rule pass)
  next
    case True
    have nn: "0 \<le> ?d" using d by linarith
    have "check_tpm now l w =
        (case time_sleep ?d w of
           Inl e \<Rightarrow> Inl e
         | Inr w1 \<Rightarrow> Inr (True, l\<lparr>token_times := ?ts\<rparr>, w1))"
      using True by (simp add: check_tpm_def Let_def)
    also have "\<dots> = Inr (True, l\<lparr>token_times := ?ts\<rparr>,
        w\<lparr>clock := clock w + ?d, slept := slept w @ [?d]\<rparr>)"
      by (simp only: time_sleep_nonneg [OF nn] sum.case)
    finally show ?thesis using d by (rule wait [rotated])
  qed
qed

lemma check_rate_limit_free:
  assumes "int (length (filter (\<lambda>t. fst (time_time w) - t < 60) (call_times l))) < rpm_limit l"
  shows "check_rate_limit l w =
           check_tpm (fst (time_time w))
             (l\<lparr>call_times := filter (\<lambda>t. fst (time_time w) - t < 60) (call_times l)\<rparr>)
             (snd (time_time w))"
  using assms by (simp add: check_rate_limit_def Let_def split_beta)

lemma check_rate_limit_empty:
  assumes "rpm_limit l \<le> int (length (filter (\<lambda>t. fst (time_time w) - t < 60) (call_times l)))"
    and "filter (\<lambda>t. fst (time_time w) - t < 60) (call_times l) = []"
  shows "check_rate_limit l w = Inl IndexError"
  using assms by (simp add: check_rate_limit_def Let_def split_beta)

lemma check_rate_limit_full:
  assumes full: "rpm_limit l \<le> int (length (filter (\<lambda>t. fst (time_time w) - t < 60) (call_times l)))"
    and hd: "filter (\<lambda>t. fst (time_time w) - t < 60) (call_times l) = t0 # rest"
    and d: "d = 60 - (fst (time_time w) - t0) + 1"
    and w2: "w2 = (snd (time_time w))\<lparr>clock := clock (snd (time_time w)) + d,
                    slept := slept (snd (time_time w)) @ [d]\<rparr>"
  shows "check_rate_limit l w =
           check_tpm (fst (time_time w2))
             (l\<lparr>call_times := filter (\<lambda>t. fst (time_time w2) - t < 60) (t0 # rest)\<rparr>)
             (snd (time_time w2))"
    and "1 < d"
proof -
  have "t0 \<in> set (filter (\<lambda>t. fst (time_time w) - t < 60) (call_times l))"
    by (simp add: hd)
  then have age: "fst (time_time w) - t0 < 60" by simp
  then show pos: "1 < d" by (simp add: d)
  then have nn: "0 \<le> d" by simp
  have sl: "time_sleep d (snd (time_time w)) = Inr w2"
    by (simp only: time_sleep_nonneg [OF nn] w2)
  have "check_rate_limit l w =
      (case time_sleep d (snd (time_time w)) of
         Inl e \<Rightarrow> Inl e
       | Inr w2 \<Rightarrow>
           check_tpm (fst (time_time w2))
             (l\<lparr>call_times := filter (\<lambda>t. fst (time_time w2) - t < 60) (t0 # rest)\<rparr>)
             (snd (time_time w2)))"
    using full pos unfolding check_rate_limit_def Let_def split_beta d
    by (simp add: hd del: filter.simps cong: sum.case_cong)
  then show "check_rate_limit l w =
           check_tpm (fst (time_time w2))
             (l\<lparr>call_times := filter (\<lambda>t. fst (time_time w2) - t < 60) (t0 # rest)\<rparr>)
             (snd (time_time w2))"
    by (simp only: sl sum.case)
qed


lemma check_tpm_outcome:
  obtains ds where
    "check_tpm now l w =
       Inr (True, l\<lparr>token_times := filter (\<lambda>(t, k). now - t < 60) (token_times l)\<rparr>,
            w\<lparr>clock := clock w + sum_list ds, slept := slept w @ ds\<rparr>)"
    "list_all (\<lambda>d. 1 < d) ds"
proof (cases rule: check_tpm_cases [of now l w])
  case pass
  show ?thesis by (rule that [of "[]"]) (simp_all add: pass)
next
  case (wait d)
  show ?thesis by (rule that [of "[d]"]) (simp_all add: wait)
qed

lemma check_rate_limit_outcome:
  assumes pos: "0 < rpm_limit l"
  obtains
    (free) now ds where
      "now = fst (time_time w)"
      "int (length (filter (\<lambda>t. now - t < 60) (call_times l))) < rpm_limit l"
      "check_rate_limit l w =
         Inr (True,
              l\<lparr>call_times := filter (\<lambda>t. now - t < 60) (call_times l),
                token_times := filter (\<lambda>(t, k). now - t < 60) (token_times l)\<rparr>,
              (snd (time_time w))\<lparr>clock := now + sum_list ds, slept := slept w @ ds\<rparr>)"
      "list_all (\<lambda>d. 1 < d) ds"
  | (full) now1 t0 rest d w2 now ds where
      "now1 = fst (time_time w)"
      "filter (\<lambda>t. now1 - t < 60) (call_times l) = t0 # rest"
      "rpm_limit l \<le> int (length (t0 # rest))"
      "d = 60 - (now1 - t0) + 1" "1 < d"
      "w2 = (snd (time_time w))\<lparr>clock := now1 + d, slept := slept w @ [d]\<rparr>"
      "now = fst (time_time w2)"
      "check_rate_limit l w =
         Inr (True,
              l\<lparr>call_times := filter (\<lambda>t. now - t < 60) (t0 # rest),
                token_times := filter (\<lambda>(t, k). now - t < 60) (token_times l)\<rparr>,
              (snd (time_time w2))\<lparr>clock := now + sum_list ds, slept := slept w @ d # ds\<rparr>)"
      "list_all (\<lambda>d. 1 < d) ds"
proof -
  let ?now1 = "fst (time_time w)"
  let ?cs1 = "filter (\<lambda>t. ?now1 - t < 60) (call_times l)"
  show ?thesis
  proof (cases "int (length ?cs1) < rpm_limit l")
    case True
    let ?l1 = "l\<lparr>call_times := ?cs1\<rparr>"
    obtain ds where tpm:
      "check_tpm ?now1 ?l1 (snd (time_time w)) =
         Inr (True, ?l1\<lparr>token_times := filter (\<lambda>(t, k). ?now1 - t < 60) (token_times ?l1)\<rparr>,
              (snd (time_time w))\<lparr>clock := clock (snd (time_time w)) + sum_list ds,
                                  slept := slept (snd (time_time w)) @ ds\<rparr>)"
      and ds: "list_all (\<lambda>d. 1 < d) ds"
      by (rule check_tpm_outcome)
    show ?thesis
    proof (rule free [of ?now1 ds])
      show "check_rate_limit l w =
         Inr (True,
              l\<lparr>call_times := ?cs1,
                token_times := filter (\<lambda>(t, k). ?now1 - t < 60) (token_times l)\<rparr>,
              (snd (time_time w))\<lparr>clock := ?now1 + sum_list ds, slept := slept w @ ds\<rparr>)"
        using tpm by (simp add: check_rate_limit_free [OF True] time_time_clock time_time_frame)
    qed (simp_all add: True ds)
  next
    case False
    then have full': "rpm_limit l \<le> int (length ?cs1)" by simp
    with pos have "?cs1 \<noteq> []" by auto
    then obtain t0 rest where hd: "?cs1 = t0 # rest" by (cases ?cs1) auto
    define d where "d = 60 - (?now1 - t0) + 1"
    define w2 where "w2 = (snd (time_time w))\<lparr>clock := clock (snd (time_time w)) + d,
                    slept := slept (snd (time_time w)) @ [d]\<rparr>"
    note crl = check_rate_limit_full [OF full' hd d_def w2_def]
    let ?now = "fst (time_time w2)"
    let ?l2 = "l\<lparr>call_times := filter (\<lambda>t. ?now - t < 60) (t0 # rest)\<rparr>"
    obtain ds where tpm:
      "check_tpm ?now ?l2 (snd (time_time w2)) =
         Inr (True, ?l2\<lparr>token_times := filter (\<lambda>(t, k). ?now - t < 60) (token_times ?l2)\<rparr>,
              (snd (time_time w2))\<lparr>clock := clock (snd (time_time w2)) + sum_list ds,
                                  slept := slept (snd (time_time w2)) @ ds\<rparr>)"
      and ds: "list_all (\<lambda>d. 1 < d) ds"
      by (rule check_tpm_outcome)
    have w2': "w2 = (snd (time_time w))\<lparr>clock := ?now1 + d, slept := slept w @ [d]\<rparr>"
      by (simp add: w2_def time_time_clock time_time_frame)
    have sl2: "slept (snd (time_time w2)) = slept w @ [d]"
      by (simp add: time_time_frame) (simp add: w2')
    show ?thesis
    proof (rule full [of ?now1 t0 rest d w2 ?now ds])
      show "check_rate_limit l w =
         Inr (True,
              l\<lparr>call_times := filter (\<lambda>t. ?now - t < 60) (t0 # rest),
                token_times := filter (\<lambda>(t, k). ?now - t < 60) (token_times l)\<rparr>,
              (snd (time_time w2))\<lparr>clock := ?now + sum_list ds, slept := slept w @ d # ds\<rparr>)"
        using tpm by (simp add: crl(1) time_time_clock sl2 del: filter.simps)
      show "rpm_limit l \<le> int (length (t0 # rest))" using full' hd by simp
      show "1 < d" by (rule crl(2))
      show "d = 60 - (?now1 - t0) + 1" by (rule d_def)
    qed (simp_all add: hd w2' ds)
  qed
qed

lemma mono_clock_update [simp]:
  "mono_clock (w\<lparr>clock := c\<rparr>) = mono_clock w"
  "mono_clock (w\<lparr>slept := s\<rparr>) = mono_clock w"
  by (simp_all add: mono_clock_def)

lemma check_rate_limit_summary:
  assumes pos: "0 < rpm_limit l"
  obtains now1 now ds w' where
    "now1 = fst (time_time w)"
    "check_rate_limit l w =
       Inr (True,
            l\<lparr>call_times := filter (\<lambda>t. now - t < 60) (filter (\<lambda>t. now1 - t < 60) (call_times l)),
              token_times := filter (\<lambda>(t, k). now - t < 60) (token_times l)\<rparr>,
            w')"
    "heap w' = heap w" "next_ref w' = next_ref w" "disk_ok w' = disk_ok w"
    "persistence_file w' = persistence_file w" "save_calls w' = save_calls w"
    "slept w' = slept w @ ds" "list_all (\<lambda>d. 1 < d) ds"
    "mono_clock w \<Longrightarrow> mono_clock w' \<and> clock w \<le> now1 \<and> now1 \<le> now \<and> now \<le> clock w'"
    "mono_clock w \<Longrightarrow> int (length (call_times l)) \<le> rpm_limit l \<Longrightarrow>
       int (length (filter (\<lambda>t. now - t < 60) (filter (\<lambda>t. now1 - t < 60) (call_times l))))
         < rpm_limit l"
    "mono_clock w \<Longrightarrow>
       rpm_limit l \<le> int (length (filter (\<lambda>t. now1 - t < 60) (call_times l))) \<Longrightarrow>
       now1 + (60 - (now1 - hd (filter (\<lambda>t. now1 - t < 60) (call_times l))) + 1) \<le> now"
  using pos
proof (cases rule: check_rate_limit_outcome [of l w])
  case (free now ds)
  have sum_nonneg: "0 \<le> sum_list ds"
    using free(4) by (induction ds) auto
  show ?thesis
  proof (rule that)
    show "now = fst (time_time w)" by (rule free(1))
    show "slept ((snd (time_time w))\<lparr>clock := now + sum_list ds, slept := slept w @ ds\<rparr>)
        = slept w @ ds" by simp
    show "list_all (\<lambda>d. 1 < d) ds" by (rule free(4))
    show "check_rate_limit l w =
       Inr (True,
            l\<lparr>call_times := filter (\<lambda>t. now - t < 60) (filter (\<lambda>t. now - t < 60) (call_times l)),
              token_times := filter (\<lambda>(t, k). now - t < 60) (token_times l)\<rparr>,
            (snd (time_time w))\<lparr>clock := now + sum_list ds, slept := slept w @ ds\<rparr>)"
      by (simp add: free(3))
    show "mono_clock w \<Longrightarrow>
       mono_clock ((snd (time_time w))\<lparr>clock := now + sum_list ds, slept := slept w @ ds\<rparr>) \<and>
       clock w \<le> now \<and> now \<le> now \<and>
       now \<le> clock ((snd (time_time w))\<lparr>clock := now + sum_list ds, slept := slept w @ ds\<rparr>)"
      using sum_nonneg by (simp add: time_time_mono free(1))
    show "mono_clock w \<Longrightarrow> int (length (call_times l)) \<le> rpm_limit l \<Longrightarrow>
       int (length (filter (\<lambda>t. now - t < 60) (filter (\<lambda>t. now - t < 60) (call_times l))))
         < rpm_limit l"
      using free(2) by simp
    show "mono_clock w \<Longrightarrow>
       rpm_limit l \<le> int (length (filter (\<lambda>t. now - t < 60) (call_times l))) \<Longrightarrow>
       now + (60 - (now - hd (filter (\<lambda>t. now - t < 60) (call_times l))) + 1) \<le> now"
      using free(2) by simp
  qed (simp_all add: free time_time_frame)
next
  case (full now1 t0 rest d w2 now ds)
  have sum_nonneg: "0 \<le> sum_list ds"
    using full(9) by (induction ds) auto
  have m2: "mono_clock w \<Longrightarrow> mono_clock w2"
    by (simp add: full(6) time_time_mono)
  have c2: "clock w2 = now1 + d" by (simp add: full(6))
  have late: "mono_clock w \<Longrightarrow> now1 + d \<le> now"
    using time_time_mono(2) [OF m2] by (simp add: full(7) c2)
  have drop: "mono_clock w \<Longrightarrow> filter (\<lambda>t. now - t < 60) (t0 # rest) = filter (\<lambda>t. now - t < 60) rest"
    using late by (simp add: full(4))
  show ?thesis
  proof (rule that)
    show "now1 = fst (time_time w)" by (rule full(1))
    show "slept ((snd (time_time w2))\<lparr>clock := now + sum_list ds, slept := slept w @ d # ds\<rparr>)
        = slept w @ d # ds" by simp
    show "check_rate_limit l w =
       Inr (True,
            l\<lparr>call_times := filter (\<lambda>t. now - t < 60) (filter (\<lambda>t. now1 - t < 60) (call_times l)),
              token_times := filter (\<lambda>(t, k). now - t < 60) (token_times l)\<rparr>,
            (snd (time_time w2))\<lparr>clock := now + sum_list ds, slept := slept w @ d # ds\<rparr>)"
      by (simp only: full(8) full(2))
    show "mono_clock w \<Longrightarrow>
       mono_clock ((snd (time_time w2))\<lparr>clock := now + sum_list ds, slept := slept w @ d # ds\<rparr>) \<and>
       clock w \<le> now1 \<and> now1 \<le> now \<and>
       now \<le> clock ((snd (time_time w2))\<lparr>clock := now + sum_list ds, slept := slept w @ d # ds\<rparr>)"
      using sum_nonneg late full(5) m2 by (simp add: time_time_mono full(1))
    show "mono_clock w \<Longrightarrow> int (length (call_times l)) \<le> rpm_limit l \<Longrightarrow>
       int (length (filter (\<lambda>t. now - t < 60) (filter (\<lambda>t. now1 - t < 60) (call_times l))))
         < rpm_limit l"
    proof -
      assume m: "mono_clock w" and inv: "int (length (call_times l)) \<le> rpm_limit l"
      have a: "length (filter (\<lambda>t. now - t < 60) rest) \<le> length rest" by simp
      have "length (t0 # rest) \<le> length (call_times l)"
        unfolding full(2) [symmetric] by simp
      then have b: "Suc (length rest) \<le> length (call_times l)" by simp
      have "int (length (filter (\<lambda>t. now - t < 60) rest)) < rpm_limit l"
        using a b inv by linarith
      then show ?thesis by (simp only: full(2) drop [OF m])
    qed
    show "mono_clock w \<Longrightarrow>
       rpm_limit l \<le> int (length (filter (\<lambda>t. now1 - t < 60) (call_times l))) \<Longrightarrow>
       now1 + (60 - (now1 - hd (filter (\<lambda>t. now1 - t < 60) (call_times l))) + 1) \<le> now"
      using late by (simp add: full(2) full(4))
    show "list_all (\<lambda>d. 1 < d) (d # ds)" using full(5) full(9) by simp
  qed (simp_all add: full(1) full(6) time_time_frame)
qed


subsection \<open>Invariants of reachable states\<close>

lemma track_request_start_after_check:
  "check_rate_limit l w = Inr (b, l1, w1) \<Longrightarrow>
   track_request_start l w =
     Inr (l1\<lparr>call_times := call_times l1 @ [fst (time_time w1)]\<rparr>, snd (time_time w1))"
  by (simp add: track_request_start_def Let_def split_beta)

lemma init_inv: "mono_clock w0 \<Longrightarrow> CreditManager_init w0 = (l, w) \<Longrightarrow> ledger_inv l w"
  by (auto simp: CreditManager_init_def ledger_inv_def mono_clock_def)

lemma track_request_start_inv:
  assumes inv: "ledger_inv l w"
  obtains l' w' where "track_request_start l w = Inr (l', w')" "ledger_inv l' w'"
proof -
  have pos: "0 < rpm_limit l" and m: "mono_clock w"
    and len: "int (length (call_times l)) \<le> rpm_limit l"
    using inv by (simp_all add: ledger_inv_def)
  from pos show ?thesis
  proof (cases rule: check_rate_limit_summary [of l w])
    case (1 now1 now ds w1)
    let ?l1 = "l\<lparr>call_times := filter (\<lambda>t. now - t < 60) (filter (\<lambda>t. now1 - t < 60) (call_times l)),
              token_times := filter (\<lambda>(t, k). now - t < 60) (token_times l)\<rparr>"
    have room: "int (length (call_times ?l1)) < rpm_limit l"
      using 1(11) [OF m len] by simp
    have m1: "mono_clock w1" using 1(10) [OF m] by simp
    show ?thesis
    proof (rule that)
      show "track_request_start l w =
        Inr (?l1\<lparr>call_times := call_times ?l1 @ [fst (time_time w1)]\<rparr>, snd (time_time w1))"
        by (rule track_request_start_after_check [OF 1(2)])
      show "ledger_inv (?l1\<lparr>call_times := call_times ?l1 @ [fst (time_time w1)]\<rparr>)
          (snd (time_time w1))"
        using inv room time_time_mono(1) [OF m1]
        by (simp add: ledger_inv_def time_time_frame 1(3))
    qed
  qed
qed

lemma track_usage_inv:
  assumes inv: "ledger_inv l w" and step: "track_usage inp out c b l w = (l', w')"
  shows "ledger_inv l' w'"
proof -
  have l': "l' = fst (track_usage inp out c b l w)" and w': "w' = snd (track_usage inp out c b l w)"
    using step by simp_all
  show ?thesis
  proof (cases b)
    case True
    then show ?thesis
      using inv unfolding l' w'
      by (simp add: ledger_inv_def track_usage_success_ledger track_usage_dom track_usage_mono)
  next
    case False
    then show ?thesis
      using inv unfolding l' w'
      by (simp add: ledger_inv_def track_usage_failure_ledger track_usage_dom track_usage_mono)
  qed
qed

lemma get_usage_stats_inv:
  assumes inv: "ledger_inv l w" and step: "get_usage_stats l w = Inr (st, w')"
  shows "ledger_inv l w'"
proof -
  have w': "w' = snd (recent_calls (call_times l) w)"
    using step by (rule get_usage_stats_world)
  show ?thesis
    using inv recent_calls_mono [of w "call_times l"]
    by (simp add: ledger_inv_def w' recent_calls_frame)
qed

lemma reachable_inv: "reachable l w \<Longrightarrow> ledger_inv l w"
proof (induction rule: reachable.induct)
  case (r_init w0 l w)
  then show ?case by (rule init_inv)
next
  case (r_admit l w l' w')
  obtain l2 w2 where "track_request_start l w = Inr (l2, w2)" "ledger_inv l2 w2"
    using track_request_start_inv [OF r_admit.IH] by blast
  with r_admit.hyps(2) show ?case by simp
next
  case (r_record l w inp out c b l' w')
  then show ?case by (blast intro: track_usage_inv)
next
  case (r_stats l w st w')
  then show ?case by (blast intro: get_usage_stats_inv)
qed

subsection \<open>Concrete states\<close>

lemma dom_registry:
  "dom registry = {''collector'', ''insight_agent'', ''optimizer'', ''analyzer'', ''dspy''}"
  by (auto simp: registry_def split: if_splits)

lemma reachable_start: "reachable ledger0 world1"
  by (rule r_init [of world0]) (simp_all add: ledger0_def world1_def mono_clock_def world0_def)

lemma start_values:
  "ledger0 = \<lparr>total_requests = 0, total_tokens = 0,
       total_input_tokens = 0, total_output_tokens = 0,
       rpm_limit = 15, tpm_limit = 1000000,
       call_times = [], token_times = [],
       component_usage = 0,
       cost_per_million_input = round_double 0.075,
       cost_per_million_output = round_double 0.30\<rparr>"
  "world1 = \<lparr>heap = (\<lambda>_. Map.empty)(0 := registry), next_ref = Suc 0, clock = 1000, drift = [1, 2, 3],
             slept = [], disk_ok = True, persistence_file = None, save_calls = 0\<rparr>"
  by (simp_all add: ledger0_def world1_def CreditManager_init_def world0_def)

lemma busy_check:
  "check_rate_limit busy_ledger world1 =
     Inr (True,
          ledger0\<lparr>call_times := [990, 991, 992, 993, 994, 995, 996, 997, 998, 999, 1000],
                  token_times := [(995, 950000)]\<rparr>,
          world1\<lparr>clock := 1056, drift := [3], slept := [46, 7]\<rparr>)"
  by (simp add: busy_ledger_def start_values check_rate_limit_def check_tpm_def time_time_def
      time_sleep_def Let_def)





subsection \<open>The ledger fields that admission leaves alone\<close>

lemma check_tpm_ledger:
  "check_tpm now l w = Inr (b, l1, w1) \<Longrightarrow> \<exists>ts. l1 = l\<lparr>token_times := ts\<rparr>"
  by (cases rule: check_tpm_cases [of now l w]) auto

lemma check_rate_limit_ledger:
  assumes "check_rate_limit l w = Inr (b, l1, w1)"
  shows "\<exists>cs ts. l1 = l\<lparr>call_times := cs, token_times := ts\<rparr>"
proof (cases "int (length (filter (\<lambda>t. fst (time_time w) - t < 60) (call_times l))) < rpm_limit l")
  case True
  show ?thesis
    using assms unfolding check_rate_limit_free [OF True]
    by (blast dest: check_tpm_ledger)
next
  case False
  then have full: "rpm_limit l \<le> int (length (filter (\<lambda>t. fst (time_time w) - t < 60) (call_times l)))"
    by simp
  show ?thesis
  proof (cases "filter (\<lambda>t. fst (time_time w) - t < 60) (call_times l)")
    case Nil
    then show ?thesis using assms check_rate_limit_empty [OF full] by simp
  next
    case (Cons t0 rest)
    show ?thesis
      using assms unfolding check_rate_limit_full(1) [OF full Cons refl refl]
      by (blast dest: check_tpm_ledger)
  qed
qed

lemma track_request_start_ledger:
  assumes "track_request_start l w = Inr (l', w')"
  shows "\<exists>cs ts. l' = l\<lparr>call_times := cs, token_times := ts\<rparr>"
proof -
  obtain b l1 w1 where crl: "check_rate_limit l w = Inr (b, l1, w1)"
    using assms by (auto simp: track_request_start_def split: sum.splits)
  obtain cs ts where l1: "l1 = l\<lparr>call_times := cs, token_times := ts\<rparr>"
    using check_rate_limit_ledger [OF crl] by blast
  have "l' = l1\<lparr>call_times := call_times l1 @ [fst (time_time w1)]\<rparr>"
    using assms track_request_start_after_check [OF crl] by simp
  then have "l' = l\<lparr>call_times := cs @ [fst (time_time w1)], token_times := ts\<rparr>"
    by (simp add: l1)
  then show ?thesis by blast
qed


subsection \<open>Reading the windows\<close>






subsection \<open>Evaluating the double-precision arithmetic\<close>

lemma binade_numeral:
  "binade (numeral k) x e =
     (if 2 \<le> x then binade (pred_numeral k) (x / 2) (e + 1)
      else if x < 1 \<and> - 1022 < e then binade (pred_numeral k) (2 * x) (e - 1)
      else e)"
  by (simp add: numeral_eq_Suc)

lemma float_of_int_0: "float_of_int 0 = Inr (Finite 0)"
  by (simp add: float_of_int_def round_double_def)

lemma rate_input: "round_double 0.075 = Finite (5404319552844595 / 72057594037927936)"
  by (simp add: round_double_def binade_numeral pow2_def round_half_even_def Let_def)

lemma rate_output: "round_double 0.30 = Finite (5404319552844595 / 18014398509481984)"
  by (simp add: round_double_def binade_numeral pow2_def round_half_even_def Let_def)

text \<open>
  The token threshold \<^verbatim>\<open>self.tpm_limit * 0.9\<close> of \<^verbatim>\<open>check_rate_limit\<close> is the double
  900000.0 for the limit that \<^verbatim>\<open>__init__\<close> sets, the number that the model compares
  with.
\<close>

lemma threshold_exact: "float_mul (Finite 1000000) (round_double 0.9) = Finite 900000"
  by (simp add: round_double_def binade_numeral pow2_def round_half_even_def Let_def)









lemma get_usage_stats_fresh_totals:
  assumes "total_input_tokens l = 0" "total_output_tokens l = 0"
    "cost_per_million_input l = round_double 0.075"
    "cost_per_million_output l = round_double 0.30"
  shows "get_usage_stats l w =
     Inr (\<lparr>stats_total_requests = total_requests l,
           stats_total_tokens = total_tokens l,
           estimated_cost = Finite 0,
           component_breakdown = component_usage l,
           current_rpm = length (fst (recent_calls (call_times l) w))\<rparr>,
          snd (recent_calls (call_times l) w))"
proof -
  have z: "float_add (float_div (float_mul (Finite 0) (round_double 0.075)) 1000000)
             (float_div (float_mul (Finite 0) (round_double 0.30)) 1000000) = Finite 0"
    unfolding rate_input rate_output by (simp add: round_double_def)
  have c: "float_of_int (total_input_tokens l) = Inr (Finite 0)"
    "float_of_int (total_output_tokens l) = Inr (Finite 0)"
    by (simp_all add: assms float_of_int_0)
  show ?thesis
    by (rule get_usage_stats_Inr [OF c, of w, unfolded assms(3,4) z])
qed


lemma fresh_stats: "get_usage_stats ledger0 world1 = Inr (stats0, world1)"
  using get_usage_stats_fresh_totals [of ledger0 world1]
  by (simp add: start_values(1) stats0_def)

subsection \<open>Runs with other clocks\<close>





subsection \<open>Accounting additivity\<close>

text \<open>
  Claim C1. Start from a fresh ledger (\<^verbatim>\<open>__init__\<close> in any world) and make any finite
  sequence of \<^verbatim>\<open>track_usage\<close> calls with \<^verbatim>\<open>success=True\<close>, with token pairs and
  components of any kind. Then \<^verbatim>\<open>total_input_tokens\<close> is the sum of the input tokens,
  \<^verbatim>\<open>total_output_tokens\<close> the sum of the output tokens, \<^verbatim>\<open>total_tokens\<close> the sum of
  both, and \<^verbatim>\<open>total_requests\<close> the number of calls.
\<close>

theorem accounting_additivity:
  "total_input_tokens
     (fst (track_all xs (fst (CreditManager_init w)) (snd (CreditManager_init w))))
     = (\<Sum>(inp, out, c) \<leftarrow> xs. inp) \<and>
   total_output_tokens
     (fst (track_all xs (fst (CreditManager_init w)) (snd (CreditManager_init w))))
     = (\<Sum>(inp, out, c) \<leftarrow> xs. out) \<and>
   total_tokens
     (fst (track_all xs (fst (CreditManager_init w)) (snd (CreditManager_init w))))
     = (\<Sum>(inp, out, c) \<leftarrow> xs. inp + out) \<and>
   total_requests
     (fst (track_all xs (fst (CreditManager_init w)) (snd (CreditManager_init w))))
     = int (length xs)"
  using track_all_totals [of xs "fst (CreditManager_init w)" "snd (CreditManager_init w)"]
  by (simp add: CreditManager_init_def)

theorem accounting_additivity_witness:
  "total_input_tokens
     (fst (track_all [(100, 50, ''collector''), (7, 3, ''unknown_tag'')]
        (fst (CreditManager_init world0)) (snd (CreditManager_init world0)))) = 107 \<and>
   total_output_tokens
     (fst (track_all [(100, 50, ''collector''), (7, 3, ''unknown_tag'')]
        (fst (CreditManager_init world0)) (snd (CreditManager_init world0)))) = 53 \<and>
   total_tokens
     (fst (track_all [(100, 50, ''collector''), (7, 3, ''unknown_tag'')]
        (fst (CreditManager_init world0)) (snd (CreditManager_init world0)))) = 160 \<and>
   total_requests
     (fst (track_all [(100, 50, ''collector''), (7, 3, ''unknown_tag'')]
        (fst (CreditManager_init world0)) (snd (CreditManager_init world0)))) = 2"
  using accounting_additivity [of "[(100, 50, ''collector''), (7, 3, ''unknown_tag'')]" world0]
  by simp

subsection \<open>Snapshot cadence\<close>

text \<open>
  Claim C2, as the code has it. The check \<^verbatim>\<open>self.total_requests % 10 == 0\<close> is the last
  statement of \<^verbatim>\<open>track_usage\<close> and is outside the \<^verbatim>\<open>if success\<close>: it runs on both
  paths. So a call of \<^verbatim>\<open>track_usage\<close> runs \<^verbatim>\<open>_save_usage\<close> exactly once when
  \<^verbatim>\<open>total_requests\<close> is a multiple of 10 after the call's updates, and not at all
  otherwise. With \<^verbatim>\<open>success=True\<close> that is when the call makes the counter a multiple
  of 10; with \<^verbatim>\<open>success=False\<close> the counter is unchanged, and the snapshot is written
  whenever it already is a multiple of 10 (0 on a fresh ledger).
\<close>

theorem snapshot_cadence:
  "save_calls (snd (track_usage inp out c True l w)) =
     (if (total_requests l + 1) mod 10 = 0 then Suc (save_calls w) else save_calls w) \<and>
   save_calls (snd (track_usage inp out c False l w)) =
     (if total_requests l mod 10 = 0 then Suc (save_calls w) else save_calls w)"
  by (simp add: track_usage_save_calls track_usage_success_ledger track_usage_failure_ledger)

theorem snapshot_cadence_witness:
  "save_calls (snd (track_usage 100 50 ''collector'' True ledger0 world1)) = 0 \<and>
   save_calls (snd (track_usage 0 0 ''optimizer'' False ledger0 world1)) = 1"
  using snapshot_cadence [of 100 50 "''collector''" ledger0 world1]
    snapshot_cadence [of 0 0 "''optimizer''" ledger0 world1]
  by (simp add: start_values)

text \<open>
  The claim as stated (a call with \<^verbatim>\<open>success=False\<close> never triggers a snapshot write)
  fails on the fresh ledger: \<^verbatim>\<open>track_usage(0, 0, 'optimizer', False)\<close> leaves
  \<^verbatim>\<open>total_requests\<close> at 0 and runs \<^verbatim>\<open>_save_usage\<close> once.
\<close>
theorem snapshot_on_failure_counterexample:
  "total_requests ledger0 = 0 \<and>
   total_requests (fst (track_usage 0 0 ''optimizer'' False ledger0 world1)) = 0 \<and>
   save_calls world1 = 0 \<and>
   save_calls (snd (track_usage 0 0 ''optimizer'' False ledger0 world1)) = 1"
  by (simp add: track_usage_failure_ledger track_usage_save_calls start_values)

subsection \<open>Admission blocking\<close>




subsection \<open>Unregistered component\<close>

text \<open>
  Claim C6. In every reachable state, a \<^verbatim>\<open>track_usage\<close> call with \<^verbatim>\<open>success=True\<close>
  whose component is none of \<^verbatim>\<open>collector\<close>, \<^verbatim>\<open>insight_agent\<close>, \<^verbatim>\<open>optimizer\<close>,
  \<^verbatim>\<open>analyzer\<close>, \<^verbatim>\<open>dspy\<close> increments the four totals and appends the token event; the
  ledger it leaves is the one any other component would leave; the object store is
  unchanged, so no entry for the identifier is created or modified. The model of
  \<^verbatim>\<open>track_usage\<close> has no error result because the source has no statement that can
  raise on this path (the dictionary is indexed only after the \<^verbatim>\<open>in\<close> test).
\<close>

theorem unregistered_component:
  assumes "reachable l w"
    and "c \<notin> {''collector'', ''insight_agent'', ''optimizer'', ''analyzer'', ''dspy''}"
  shows "fst (track_usage inp out c True l w) =
           l\<lparr>total_requests := total_requests l + 1,
             total_tokens := total_tokens l + (inp + out),
             total_input_tokens := total_input_tokens l + inp,
             total_output_tokens := total_output_tokens l + out,
             token_times := token_times l @ [(fst (time_time w), inp + out)]\<rparr> \<and>
         (\<forall>c'. fst (track_usage inp out c' True l w) = fst (track_usage inp out c True l w)) \<and>
         heap (snd (track_usage inp out c True l w)) = heap w \<and>
         heap (snd (track_usage inp out c True l w)) (component_usage l) c = None"
proof -
  have "dom (heap w (component_usage l)) = dom registry"
    using reachable_inv [OF assms(1)] by (simp add: ledger_inv_def)
  then have "c \<notin> dom (heap w (component_usage l))"
    using assms(2) by (simp add: dom_registry)
  then have none: "heap w (component_usage l) c = None" by blast
  show ?thesis
    by (simp add: track_usage_success_ledger track_usage_success_heap none)
qed

theorem unregistered_component_witness:
  "reachable ledger0 world1 \<and>
   ''unknown_tag'' \<notin> {''collector'', ''insight_agent'', ''optimizer'', ''analyzer'', ''dspy''} \<and>
   total_requests (fst (track_usage 10 10 ''unknown_tag'' True ledger0 world1)) = 1 \<and>
   total_tokens (fst (track_usage 10 10 ''unknown_tag'' True ledger0 world1)) = 20 \<and>
   token_times (fst (track_usage 10 10 ''unknown_tag'' True ledger0 world1)) = [(1001, 20)] \<and>
   heap (snd (track_usage 10 10 ''unknown_tag'' True ledger0 world1)) = heap world1 \<and>
   heap (snd (track_usage 10 10 ''unknown_tag'' True ledger0 world1)) 0 ''unknown_tag'' = None"
proof -
  have u: "''unknown_tag'' \<notin> {''collector'', ''insight_agent'', ''optimizer'', ''analyzer'', ''dspy''}"
    by simp
  have t: "fst (time_time world1) = 1001"
    by (simp add: time_time_def start_values)
  have r: "component_usage ledger0 = 0" by (simp add: start_values)
  note th = unregistered_component [OF reachable_start u, of 10 10, unfolded r t]
  have "fst (track_usage 10 10 ''unknown_tag'' True ledger0 world1) =
          ledger0\<lparr>total_requests := total_requests ledger0 + 1,
             total_tokens := total_tokens ledger0 + (10 + 10),
             total_input_tokens := total_input_tokens ledger0 + 10,
             total_output_tokens := total_output_tokens ledger0 + 10,
             token_times := token_times ledger0 @ [(1001, 10 + 10)]\<rparr>"
    using th by (rule conjunct1)
  then have "total_requests (fst (track_usage 10 10 ''unknown_tag'' True ledger0 world1)) = 1"
    and "total_tokens (fst (track_usage 10 10 ''unknown_tag'' True ledger0 world1)) = 20"
    and "token_times (fst (track_usage 10 10 ''unknown_tag'' True ledger0 world1)) = [(1001, 20)]"
    by (simp_all add: start_values(1))
  moreover have "heap (snd (track_usage 10 10 ''unknown_tag'' True ledger0 world1)) = heap world1"
    and "heap (snd (track_usage 10 10 ''unknown_tag'' True ledger0 world1)) 0 ''unknown_tag'' = None"
    using th by blast+
  ultimately show ?thesis
    using reachable_start u by blast
qed

subsection \<open>The failure path\<close>

text \<open>
  Claim C7. A \<^verbatim>\<open>track_usage\<close> call with \<^verbatim>\<open>success=False\<close> leaves the ledger as it was
  (totals, both windows, limits and prices), and in the object store changes only the
  \<^verbatim>\<open>errors\<close> counter of the named component in the ledger's table, when the component is
  a key of that table: every other entry, and the \<^verbatim>\<open>calls\<close> and \<^verbatim>\<open>tokens\<close> of every
  entry, are as before. On a fresh ledger,
  \<^verbatim>\<open>track_usage(0, 0, 'optimizer', False)\<close> gives \<^verbatim>\<open>errors == 1\<close> for
  \<^verbatim>\<open>optimizer\<close> and \<^verbatim>\<open>total_requests == 0\<close>.
\<close>

theorem failure_path_frame:
  "fst (track_usage inp out c False l w) = l \<and>
   (\<forall>r c'. heap (snd (track_usage inp out c False l w)) r c' =
      (if r = component_usage l \<and> c' = c
       then map_option (\<lambda>cs. cs\<lparr>errors := errors cs + 1\<rparr>) (heap w r c')
       else heap w r c')) \<and>
   heap (snd (track_usage 0 0 ''optimizer'' False
               (fst (CreditManager_init w0)) (snd (CreditManager_init w0))))
        (component_usage (fst (CreditManager_init w0))) ''optimizer''
     = Some \<lparr>calls = 0, tokens = 0, errors = 1\<rparr> \<and>
   total_requests (fst (track_usage 0 0 ''optimizer'' False
               (fst (CreditManager_init w0)) (snd (CreditManager_init w0)))) = 0"
proof (intro conjI allI)
  show "fst (track_usage inp out c False l w) = l" by (rule track_usage_failure_ledger)
next
  fix r c'
  show "heap (snd (track_usage inp out c False l w)) r c' =
      (if r = component_usage l \<and> c' = c
       then map_option (\<lambda>cs. cs\<lparr>errors := errors cs + 1\<rparr>) (heap w r c')
       else heap w r c')"
    by (simp add: track_usage_failure_heap split: option.splits)
next
  show "heap (snd (track_usage 0 0 ''optimizer'' False
               (fst (CreditManager_init w0)) (snd (CreditManager_init w0))))
        (component_usage (fst (CreditManager_init w0))) ''optimizer''
     = Some \<lparr>calls = 0, tokens = 0, errors = 1\<rparr>"
    by (simp add: track_usage_failure_heap CreditManager_init_def registry_def)
next
  show "total_requests (fst (track_usage 0 0 ''optimizer'' False
               (fst (CreditManager_init w0)) (snd (CreditManager_init w0)))) = 0"
    by (simp add: track_usage_failure_ledger CreditManager_init_def)
qed

theorem failure_path_frame_witness:
  "fst (track_usage 0 0 ''optimizer'' False ledger0 world1) = ledger0 \<and>
   heap (snd (track_usage 0 0 ''optimizer'' False ledger0 world1)) 0 ''optimizer''
     = Some \<lparr>calls = 0, tokens = 0, errors = 1\<rparr> \<and>
   heap (snd (track_usage 0 0 ''optimizer'' False ledger0 world1)) 0 ''collector''
     = Some \<lparr>calls = 0, tokens = 0, errors = 0\<rparr> \<and>
   fst (track_usage 0 0 ''unknown_tag'' False ledger0 world1) = ledger0 \<and>
   heap (snd (track_usage 0 0 ''unknown_tag'' False ledger0 world1)) 0 ''unknown_tag'' = None"
  using failure_path_frame [of 0 0 "''optimizer''" ledger0 world1 world0]
    failure_path_frame [of 0 0 "''unknown_tag''" ledger0 world1 world0]
  by (simp add: start_values registry_def)

subsection \<open>Cost formula\<close>




subsection \<open>Non-negative waits\<close>

text \<open>
  Claim C9. For every ledger with a positive \<^verbatim>\<open>rpm_limit\<close> (\<^verbatim>\<open>__init__\<close> sets 15 and
  no method changes it) and every clock, monotonic or not, \<^verbatim>\<open>check_rate_limit\<close>
  returns \<^verbatim>\<open>True\<close> without raising, every duration it hands to \<^verbatim>\<open>time.sleep\<close> is
  non-negative (in fact positive), and \<^verbatim>\<open>track_request_start\<close> returns without
  raising and sleeps no further.
\<close>

theorem nonnegative_waits:
  assumes "0 < rpm_limit l"
  shows "\<exists>l' w' ds. check_rate_limit l w = Inr (True, l', w') \<and>
           slept w' = slept w @ ds \<and> list_all (\<lambda>d. 0 \<le> d \<and> 0 < d) ds \<and>
           (\<exists>l'' w''. track_request_start l w = Inr (l'', w'') \<and> slept w'' = slept w')"
  using assms
proof (cases rule: check_rate_limit_summary [of l w])
  case (1 now1 now ds w')
  have "list_all (\<lambda>d. 0 \<le> d \<and> 0 < d) ds"
    using 1(9) by (induction ds) auto
  moreover have "slept (snd (time_time w')) = slept w'" by (simp add: time_time_frame)
  ultimately show ?thesis
    using 1(2) 1(8) track_request_start_after_check [OF 1(2)] by blast
qed

theorem nonnegative_waits_witness:
  "0 < rpm_limit busy_ledger \<and>
   slept (snd (snd (projr (check_rate_limit busy_ledger world1)))) = [46, 7] \<and>
   (\<exists>l' w' ds. check_rate_limit busy_ledger world1 = Inr (True, l', w') \<and>
      slept w' = slept world1 @ ds \<and> list_all (\<lambda>d. 0 \<le> d \<and> 0 < d) ds \<and>
      (\<exists>l'' w''. track_request_start busy_ledger world1 = Inr (l'', w'') \<and> slept w'' = slept w'))"
proof -
  have pos: "0 < rpm_limit busy_ledger" by (simp add: busy_ledger_def start_values)
  show ?thesis
    using nonnegative_waits [OF pos, of world1] pos by (simp add: busy_check)
qed

subsection \<open>The token-total invariant\<close>

text \<open>
  Claim C10. \<^verbatim>\<open>total_tokens == total_input_tokens + total_output_tokens\<close> holds on a
  fresh ledger, is preserved by \<^verbatim>\<open>track_request_start\<close> and by \<^verbatim>\<open>track_usage\<close> with
  any arguments and either value of \<^verbatim>\<open>success\<close>, and holds in every reachable state.
  \<^verbatim>\<open>get_usage_stats\<close> assigns to no attribute of the ledger (its model returns the
  statistics and the world only).
\<close>

theorem token_total_invariant:
  "tokens_consistent (fst (CreditManager_init w0)) \<and>
   (\<forall>l w l' w'. tokens_consistent l \<longrightarrow> track_request_start l w = Inr (l', w') \<longrightarrow>
      tokens_consistent l') \<and>
   (\<forall>inp out c b l w. tokens_consistent l \<longrightarrow>
      tokens_consistent (fst (track_usage inp out c b l w))) \<and>
   (\<forall>l w. reachable l w \<longrightarrow> tokens_consistent l)"
proof (intro conjI allI impI)
  show "tokens_consistent (fst (CreditManager_init w0))"
    by (simp add: tokens_consistent_def CreditManager_init_def)
next
  fix l w l' w'
  assume "tokens_consistent l" and "track_request_start l w = Inr (l', w')"
  then show "tokens_consistent l'"
    by (auto simp: tokens_consistent_def dest!: track_request_start_ledger)
next
  fix inp out c b l w
  assume "tokens_consistent l"
  then show "tokens_consistent (fst (track_usage inp out c b l w))"
    by (cases b)
       (simp_all add: tokens_consistent_def track_usage_success_ledger track_usage_failure_ledger)
next
  fix l w
  assume "reachable l w"
  then show "tokens_consistent l"
    by (auto simp: tokens_consistent_def ledger_inv_def dest: reachable_inv)
qed

theorem token_total_invariant_witness:
  "tokens_consistent (fst (CreditManager_init world0)) \<and>
   reachable ledger0 world1 \<and>
   reachable (fst (track_usage 100 50 ''collector'' True ledger0 world1))
             (snd (track_usage 100 50 ''collector'' True ledger0 world1)) \<and>
   total_tokens (fst (track_usage 100 50 ''collector'' True ledger0 world1)) = 150 \<and>
   tokens_consistent (fst (track_usage 100 50 ''collector'' True ledger0 world1))"
proof -
  have r: "reachable (fst (track_usage 100 50 ''collector'' True ledger0 world1))
             (snd (track_usage 100 50 ''collector'' True ledger0 world1))"
    by (rule r_record [OF reachable_start]) simp
  have "total_tokens (fst (track_usage 100 50 ''collector'' True ledger0 world1)) = 150"
    by (simp add: track_usage_success_ledger start_values)
  then show ?thesis
    using token_total_invariant [of world0] r reachable_start by blast
qed

subsection \<open>Window pruning\<close>




subsection \<open>The breakdown returned by \<^verbatim>\<open>get_usage_stats\<close>\<close>

text \<open>
  Claim C4, as the code has it. \<^verbatim>\<open>get_usage_stats\<close> returns
  \<^verbatim>\<open>'component_breakdown': self.component_usage\<close>: the reference to the ledger's own
  table, not a copy (no object is created, the store is unchanged). A later successful
  \<^verbatim>\<open>track_usage\<close> for a component that is a key of the table is therefore visible
  through a breakdown returned earlier: its \<^verbatim>\<open>calls\<close> is one more and its \<^verbatim>\<open>tokens\<close>
  larger by the tokens of the call. The other fields of the returned value are numbers
  fixed when the call was made.
\<close>

theorem breakdown_is_live_reference:
  assumes "get_usage_stats l w = Inr (st, w1)"
  shows "component_breakdown st = component_usage l \<and>
         heap w1 = heap w \<and>
         next_ref w1 = next_ref w \<and>
         (heap w (component_usage l) c = Some cs \<longrightarrow>
            heap (snd (track_usage inp out c True l w1)) (component_breakdown st) c
              = Some (cs\<lparr>calls := calls cs + 1, tokens := tokens cs + (inp + out)\<rparr>))"
  using assms
  by (rule get_usage_stats_returned)
     (simp add: recent_calls_frame track_usage_success_heap)

theorem breakdown_is_live_reference_witness:
  "get_usage_stats ledger0 world1 = Inr (stats0, world1) \<and>
   heap world1 (component_usage ledger0) ''collector'' = Some \<lparr>calls = 0, tokens = 0, errors = 0\<rparr> \<and>
   component_breakdown stats0 = component_usage ledger0 \<and>
   heap (snd (track_usage 100 50 ''collector'' True ledger0 world1))
        (component_breakdown stats0) ''collector''
     = Some \<lparr>calls = 1, tokens = 150, errors = 0\<rparr>"
proof -
  have reg: "heap world1 (component_usage ledger0) ''collector''
      = Some \<lparr>calls = 0, tokens = 0, errors = 0\<rparr>"
    by (simp add: start_values registry_def)
  note th = breakdown_is_live_reference [OF fresh_stats, of "''collector''"
        "\<lparr>calls = 0, tokens = 0, errors = 0\<rparr>" 100 50]
  have same: "component_breakdown stats0 = component_usage ledger0"
    using th by (rule conjunct1)
  have "heap (snd (track_usage 100 50 ''collector'' True ledger0 world1))
        (component_breakdown stats0) ''collector''
     = Some (\<lparr>calls = 0, tokens = 0, errors = 0\<rparr>\<lparr>calls := calls \<lparr>calls = 0, tokens = 0, errors = 0\<rparr> + 1,
         tokens := tokens \<lparr>calls = 0, tokens = 0, errors = 0\<rparr> + (100 + 50)\<rparr>)"
    using th reg by blast
  then have later: "heap (snd (track_usage 100 50 ''collector'' True ledger0 world1))
        (component_breakdown stats0) ''collector''
     = Some \<lparr>calls = 1, tokens = 150, errors = 0\<rparr>"
    by simp
  show ?thesis
    using fresh_stats reg same later by (intro conjI)
qed

text \<open>
  The claim as stated (a later mutation of the ledger leaves a breakdown returned earlier
  unchanged) fails on the fresh ledger: read through the breakdown returned by
  \<^verbatim>\<open>get_usage_stats\<close>, the entry of \<^verbatim>\<open>collector\<close> has \<^verbatim>\<open>calls == 0\<close> before and
  \<^verbatim>\<open>calls == 1\<close>, \<^verbatim>\<open>tokens == 150\<close> after \<^verbatim>\<open>track_usage(100, 50, 'collector', True)\<close>.
\<close>

theorem breakdown_copy_counterexample:
  "get_usage_stats ledger0 world1 = Inr (stats0, world1) \<and>
   heap world1 (component_breakdown stats0) ''collector''
     = Some \<lparr>calls = 0, tokens = 0, errors = 0\<rparr> \<and>
   heap (snd (track_usage 100 50 ''collector'' True ledger0 world1))
        (component_breakdown stats0) ''collector''
     = Some \<lparr>calls = 1, tokens = 150, errors = 0\<rparr>"
  by (simp add: fresh_stats)
     (simp add: stats0_def track_usage_success_heap start_values registry_def)

end
